theory Spec2Isabelle
  imports Complex_Main "HOL-Library.Char_ord" "HOL-Library.List_Lexorder" "HOL-Library.Multiset"
begin

section \<open>The SQLite connection behind the deduplication store\<close>

text \<open>
  \<^verbatim>\<open>dedup_store.py\<close> keeps one table, \<^verbatim>\<open>processed_events\<close>, with the text columns
  \<^verbatim>\<open>topic, event_id, timestamp, processed_at\<close> and the primary key \<^verbatim>\<open>(topic, event_id)\<close>.
  A row is the 4-tuple that \<^verbatim>\<open>cursor.fetchall()\<close> returns, and the table is the list of
  its rows in insertion order.

  The database lives outside the Python object: \<^verbatim>\<open>sqlite3.connect(db_path)\<close> opens the
  file named \<^verbatim>\<open>db_path\<close>. The files are the map \<open>disk\<close> from a path to the table
  stored there (\<open>None\<close>: no \<^verbatim>\<open>processed_events\<close> table at that path). SQLite gives the
  two names \<^verbatim>\<open>:memory:\<close> and the empty string a private database that belongs to the one
  connection; that database is the field \<open>mem\<close> of the handle. Every statement
  of the store runs under \<^verbatim>\<open>self.lock\<close> and every write is committed before the lock is
  released, so one call of a store method is one atomic step on the table.
\<close>

datatype error = ProgrammingError | OperationalError | IntegrityError

type_synonym row = "string \<times> string \<times> string \<times> string"

type_synonym disk = "string \<Rightarrow> row list option"

record store =
  db_path :: string
  conn_open :: bool
  mem :: "row list option"

definition row_topic :: "row \<Rightarrow> string" where
  "row_topic r = fst r"

definition row_event_id :: "row \<Rightarrow> string" where
  "row_event_id r = fst (snd r)"

definition row_timestamp :: "row \<Rightarrow> string" where
  "row_timestamp r = fst (snd (snd r))"

definition row_processed_at :: "row \<Rightarrow> string" where
  "row_processed_at r = snd (snd (snd r))"

definition is_file_path :: "string \<Rightarrow> bool" where
  "is_file_path p = (p \<noteq> '':memory:'' \<and> p \<noteq> '''')"

definition db_table :: "store \<Rightarrow> disk \<Rightarrow> row list option" where
  "db_table s d = (if is_file_path (db_path s) then d (db_path s) else mem s)"

definition db_write :: "row list \<Rightarrow> store \<Rightarrow> disk \<Rightarrow> store \<times> disk" where
  "db_write t s d =
     (if is_file_path (db_path s) then (s, d(db_path s := Some t))
      else (s\<lparr>mem := Some t\<rparr>, d))"

text \<open>
  \<^verbatim>\<open>conn.execute("SELECT ... FROM processed_events")\<close>: a closed connection raises
  \<^verbatim>\<open>ProgrammingError\<close>, a missing table \<^verbatim>\<open>OperationalError\<close>.
\<close>

definition select_rows :: "store \<Rightarrow> disk \<Rightarrow> error + row list" where
  "select_rows s d =
     (if \<not> conn_open s then Inl ProgrammingError
      else case db_table s d of None \<Rightarrow> Inl OperationalError | Some t \<Rightarrow> Inr t)"

definition has_key :: "string \<Rightarrow> string \<Rightarrow> row list \<Rightarrow> bool" where
  "has_key tp eid t = list_ex (\<lambda>r. row_topic r = tp \<and> row_event_id r = eid) t"

text \<open>
  \<^verbatim>\<open>INSERT INTO processed_events ... VALUES (?, ?, ?, ?)\<close> followed by \<^verbatim>\<open>commit()\<close>:
  the primary key refuses a second row with the same \<^verbatim>\<open>(topic, event_id)\<close> with
  \<^verbatim>\<open>IntegrityError\<close>.
\<close>

definition insert_row :: "row \<Rightarrow> store \<Rightarrow> disk \<Rightarrow> error + (store \<times> disk)" where
  "insert_row r s d =
     (case select_rows s d of
        Inl e \<Rightarrow> Inl e
      | Inr t \<Rightarrow>
          if has_key (row_topic r) (row_event_id r) t then Inl IntegrityError
          else Inr (db_write (t @ [r]) s d))"

text \<open>\<^verbatim>\<open>DELETE FROM processed_events\<close> followed by \<^verbatim>\<open>commit()\<close>.\<close>

definition delete_rows :: "store \<Rightarrow> disk \<Rightarrow> error + (store \<times> disk)" where
  "delete_rows s d =
     (case select_rows s d of Inl e \<Rightarrow> Inl e | Inr t \<Rightarrow> Inr (db_write [] s d))"

section \<open>DeduplicationStore\<close>

text \<open>
  \<^verbatim>\<open>__init__\<close> connects and runs \<^verbatim>\<open>_init_db\<close>: \<^verbatim>\<open>CREATE TABLE IF NOT EXISTS\<close> leaves an
  existing table as it is.
\<close>

definition DeduplicationStore_init :: "string \<Rightarrow> disk \<Rightarrow> store \<times> disk" where
  "DeduplicationStore_init p d =
     (let s = \<lparr>db_path = p, conn_open = True, mem = None\<rparr>
      in case db_table s d of None \<Rightarrow> db_write [] s d | Some t \<Rightarrow> (s, d))"

definition sync_check :: "string \<Rightarrow> string \<Rightarrow> store \<Rightarrow> disk \<Rightarrow> error + bool" where
  "sync_check tp eid s d =
     (case select_rows s d of Inl e \<Rightarrow> Inl e | Inr t \<Rightarrow> Inr (has_key tp eid t))"

definition is_processed :: "string \<Rightarrow> string \<Rightarrow> store \<Rightarrow> disk \<Rightarrow> error + bool" where
  "is_processed tp eid s d = sync_check tp eid s d"

text \<open>
  \<^verbatim>\<open>_sync_mark\<close>: the insert is tried; \<^verbatim>\<open>except sqlite3.IntegrityError: return False\<close>
  turns the refused insert into the result \<open>False\<close>, every other error propagates.
  \<open>now\<close> is the text \<^verbatim>\<open>datetime.now(timezone.utc).isoformat()\<close> that the store reads from
  its own clock inside the call.
\<close>

definition sync_mark ::
  "string \<Rightarrow> string \<Rightarrow> string \<Rightarrow> string \<Rightarrow> store \<Rightarrow> disk \<Rightarrow> error + (bool \<times> store \<times> disk)" where
  "sync_mark tp eid ts now s d =
     (case insert_row (tp, eid, ts, now) s d of
        Inr (s', d') \<Rightarrow> Inr (True, s', d')
      | Inl IntegrityError \<Rightarrow> Inr (False, s, d)
      | Inl e \<Rightarrow> Inl e)"

definition mark_processed ::
  "string \<Rightarrow> string \<Rightarrow> string \<Rightarrow> string \<Rightarrow> store \<Rightarrow> disk \<Rightarrow> error + (bool \<times> store \<times> disk)" where
  "mark_processed tp eid ts now s d = sync_mark tp eid ts now s d"

text \<open>
  \<^verbatim>\<open>_sync_fetch_events\<close>: \<^verbatim>\<open>if topic:\<close> is Python truthiness, so both \<^verbatim>\<open>None\<close> and the
  empty string take the branch without a \<^verbatim>\<open>WHERE\<close> clause. \<^verbatim>\<open>ORDER BY processed_at DESC\<close>
  compares the stored texts byte by byte; SQL leaves the order of rows with equal
  \<^verbatim>\<open>processed_at\<close> open, and the model takes the one of a stable sort read backwards.
\<close>

definition truthy :: "string option \<Rightarrow> bool" where
  "truthy topic = (case topic of None \<Rightarrow> False | Some tp \<Rightarrow> tp \<noteq> [])"

definition order_by_processed_at_desc :: "row list \<Rightarrow> row list" where
  "order_by_processed_at_desc t = rev (sort_key row_processed_at t)"

definition sync_fetch_events :: "string option \<Rightarrow> store \<Rightarrow> disk \<Rightarrow> error + row list" where
  "sync_fetch_events topic s d =
     (case select_rows s d of
        Inl e \<Rightarrow> Inl e
      | Inr t \<Rightarrow>
          if truthy topic
          then Inr (order_by_processed_at_desc (filter (\<lambda>r. row_topic r = the topic) t))
          else Inr (order_by_processed_at_desc t))"

definition get_processed_events :: "string option \<Rightarrow> store \<Rightarrow> disk \<Rightarrow> error + row list" where
  "get_processed_events topic s d = sync_fetch_events topic s d"

text \<open>
  \<^verbatim>\<open>_sync_get_stats\<close>: the dict \<^verbatim>\<open>{"total_unique": total, "topics": topics}\<close>, where
  \<^verbatim>\<open>topics\<close> has a key for every topic with at least one row (\<^verbatim>\<open>GROUP BY topic\<close>).
\<close>

record store_stats =
  total_unique :: int
  topics :: "string \<Rightarrow> int option"

definition topic_count :: "row list \<Rightarrow> string \<Rightarrow> int option" where
  "topic_count t tp =
     (let c = length (filter (\<lambda>r. row_topic r = tp) t)
      in if c = 0 then None else Some (int c))"

definition sync_get_stats :: "store \<Rightarrow> disk \<Rightarrow> error + store_stats" where
  "sync_get_stats s d =
     (case select_rows s d of
        Inl e \<Rightarrow> Inl e
      | Inr t \<Rightarrow> Inr \<lparr>total_unique = int (length t), topics = topic_count t\<rparr>)"

definition sync_clear :: "store \<Rightarrow> disk \<Rightarrow> error + (store \<times> disk)" where
  "sync_clear s d = delete_rows s d"

text \<open>
  \<^verbatim>\<open>close\<close>: \<^verbatim>\<open>self.conn.close()\<close>. sqlite3 accepts \<^verbatim>\<open>close()\<close> on a connection that is
  already closed and does nothing then, so the call has no error branch.
\<close>

definition close :: "store \<Rightarrow> store" where
  "close s = s\<lparr>conn_open := False\<rparr>"

text \<open>
  A store is usable when its connection is open and the table exists; every store
  built by \<^verbatim>\<open>__init__\<close> is, until \<^verbatim>\<open>close\<close>.
\<close>

definition store_ok :: "store \<Rightarrow> disk \<Rightarrow> bool" where
  "store_ok s d = (conn_open s \<and> db_table s d \<noteq> None)"

section \<open>EventAggregator\<close>

text \<open>
  \<^verbatim>\<open>model.Event\<close>; the payload is never read by the aggregator or the store, so its
  type is a parameter.
\<close>

record 'p event =
  topic :: string
  event_id :: string
  timestamp :: string
  source :: string
  payload :: 'p

text \<open>
  The dict \<^verbatim>\<open>self.stats\<close>; \<^verbatim>\<open>start_time\<close> is a reading of \<^verbatim>\<open>time.time()\<close>. Clock
  readings are real numbers here: the rounding of Python's float subtraction is not
  modelled.
\<close>

record stats =
  received :: int
  unique_processed :: int
  duplicate_dropped :: int
  start_time :: real

text \<open>The dict \<^verbatim>\<open>result\<close> that \<^verbatim>\<open>publish\<close> returns.\<close>

record publish_result =
  accepted :: int
  rejected :: int
  duplicates_immediate :: int

text \<open>An asyncio task of \<^verbatim>\<open>consumer_tasks\<close> is pending until it is cancelled or returns.\<close>

datatype task_state = Pending | Finished

record 'p aggregator =
  dedup_store :: store
  queue :: "'p event list"
  stats :: stats
  running :: bool
  consumer_tasks :: "task_state list"

text \<open>\<^verbatim>\<open>__init__\<close>; \<open>now\<close> is the reading of \<^verbatim>\<open>time.time()\<close> taken there.\<close>

definition EventAggregator_init :: "real \<Rightarrow> store \<Rightarrow> 'p aggregator" where
  "EventAggregator_init now st =
     \<lparr>dedup_store = st, queue = [],
      stats = \<lparr>received = 0, unique_processed = 0, duplicate_dropped = 0, start_time = now\<rparr>,
      running = False, consumer_tasks = []\<rparr>"

definition start :: "'p aggregator \<Rightarrow> 'p aggregator" where
  "start a =
     (if \<not> running a
      then a\<lparr>running := True, consumer_tasks := map (\<lambda>i. Pending) [0..<5]\<rparr>
      else a)"

text \<open>
  \<^verbatim>\<open>stop\<close>: the flag is cleared; when there are tasks, each is cancelled, awaited, and the
  store is closed. \<^verbatim>\<open>consumer_tasks\<close> keeps the finished tasks, and the queue is not read.
\<close>

definition stop :: "'p aggregator \<Rightarrow> 'p aggregator" where
  "stop a =
     (let a1 = a\<lparr>running := False\<rparr>
      in if consumer_tasks a1 \<noteq> []
         then a1\<lparr>consumer_tasks := map (\<lambda>t. Finished) (consumer_tasks a1),
                 dedup_store := close (dedup_store a1)\<rparr>
         else a1)"

text \<open>
  \<^verbatim>\<open>publish\<close>: the \<^verbatim>\<open>for\<close> loop over the events, with the result dict as accumulator.
  An error of \<^verbatim>\<open>is_processed\<close> leaves the loop after \<^verbatim>\<open>received\<close> was incremented, and
  what was counted and enqueued before stays, so the aggregator is returned beside the
  result or error. The store is only read.
\<close>

fun publish_loop ::
  "'p event list \<Rightarrow> disk \<Rightarrow> publish_result \<Rightarrow> 'p aggregator
     \<Rightarrow> (error + publish_result) \<times> 'p aggregator" where
  "publish_loop [] d res a = (Inr res, a)"
| "publish_loop (ev # evs) d res a =
     (let a1 = a\<lparr>stats := (stats a)\<lparr>received := received (stats a) + 1\<rparr>\<rparr>
      in case is_processed (topic ev) (event_id ev) (dedup_store a1) d of
           Inl e \<Rightarrow> (Inl e, a1)
         | Inr found \<Rightarrow>
             if found
             then publish_loop evs d
                    (res\<lparr>duplicates_immediate := duplicates_immediate res + 1,
                         rejected := rejected res + 1\<rparr>)
                    (a1\<lparr>stats := (stats a1)\<lparr>duplicate_dropped :=
                                                duplicate_dropped (stats a1) + 1\<rparr>\<rparr>)
             else publish_loop evs d
                    (res\<lparr>accepted := accepted res + 1\<rparr>)
                    (a1\<lparr>queue := queue a1 @ [ev]\<rparr>))"

definition publish ::
  "'p event list \<Rightarrow> disk \<Rightarrow> 'p aggregator \<Rightarrow> (error + publish_result) \<times> 'p aggregator" where
  "publish evs d a =
     publish_loop evs d \<lparr>accepted = 0, rejected = 0, duplicates_immediate = 0\<rparr> a"

text \<open>
  \<^verbatim>\<open>_process_event\<close>; \<open>now\<close> is the clock text the store reads if it inserts.
\<close>

definition process_event ::
  "string \<Rightarrow> 'p event \<Rightarrow> 'p aggregator \<Rightarrow> disk \<Rightarrow> error + ('p aggregator \<times> disk)" where
  "process_event now ev a d =
     (case mark_processed (topic ev) (event_id ev) (timestamp ev) now (dedup_store a) d of
        Inl e \<Rightarrow> Inl e
      | Inr (was_new, s', d') \<Rightarrow>
          if was_new
          then Inr (a\<lparr>dedup_store := s',
                      stats := (stats a)\<lparr>unique_processed :=
                                            unique_processed (stats a) + 1\<rparr>\<rparr>, d')
          else Inr (a\<lparr>dedup_store := s',
                      stats := (stats a)\<lparr>duplicate_dropped :=
                                            duplicate_dropped (stats a) + 1\<rparr>\<rparr>, d'))"

text \<open>
  One turn of the \<^verbatim>\<open>while\<close> loop of \<^verbatim>\<open>_consume_events\<close>, taken by a pending worker:
  an empty queue ends in \<^verbatim>\<open>TimeoutError\<close> and \<^verbatim>\<open>continue\<close>; otherwise the head of the queue
  is taken and processed, and \<^verbatim>\<open>except Exception\<close> logs an error of the store and goes on,
  the event gone from the queue.
\<close>

definition consume_events_step ::
  "string \<Rightarrow> 'p aggregator \<Rightarrow> disk \<Rightarrow> 'p aggregator \<times> disk" where
  "consume_events_step now a d =
     (if Pending \<in> set (consumer_tasks a) \<and> (running a \<or> queue a \<noteq> [])
      then case queue a of
             [] \<Rightarrow> (a, d)
           | ev # q \<Rightarrow>
               (case process_event now ev (a\<lparr>queue := q\<rparr>) d of
                  Inl e \<Rightarrow> (a\<lparr>queue := q\<rparr>, d)
                | Inr (a', d') \<Rightarrow> (a', d'))
      else (a, d))"

text \<open>
  \<^verbatim>\<open>model.StatsResponse\<close>, its fields in the order of the class: \<^verbatim>\<open>received\<close>,
  \<^verbatim>\<open>unique_processed\<close>, \<^verbatim>\<open>duplicate_dropped\<close>, \<^verbatim>\<open>topics\<close>, \<^verbatim>\<open>uptime\<close>.
\<close>

datatype StatsResponse = StatsResponse int int int "string \<Rightarrow> int option" real

fun uptime :: "StatsResponse \<Rightarrow> real" where
  "uptime (StatsResponse r u dd tps up) = up"

text \<open>\<^verbatim>\<open>get_stats\<close>; \<open>now\<close> is the reading of \<^verbatim>\<open>time.time()\<close> taken in the call.\<close>

definition get_stats :: "real \<Rightarrow> 'p aggregator \<Rightarrow> disk \<Rightarrow> error + StatsResponse" where
  "get_stats now a d =
     (case sync_get_stats (dedup_store a) d of
        Inl e \<Rightarrow> Inl e
      | Inr store_stats \<Rightarrow>
          Inr (StatsResponse (received (stats a)) (unique_processed (stats a))
                 (duplicate_dropped (stats a)) (topics store_stats)
                 (now - start_time (stats a))))"

text \<open>\<^verbatim>\<open>get_events\<close>: each row becomes a dict, here the list of its items.\<close>

definition event_dict :: "row \<Rightarrow> (string \<times> string) list" where
  "event_dict e =
     [(''topic'', row_topic e), (''event_id'', row_event_id e),
      (''timestamp'', row_timestamp e), (''processed_at'', row_processed_at e)]"

definition get_events ::
  "string option \<Rightarrow> 'p aggregator \<Rightarrow> disk \<Rightarrow> error + (string \<times> string) list list" where
  "get_events tpc a d =
     (case get_processed_events tpc (dedup_store a) d of
        Inl e \<Rightarrow> Inl e
      | Inr events \<Rightarrow> Inr (map event_dict events))"

section \<open>Schedules\<close>

text \<open>
  The service interleaves calls of \<^verbatim>\<open>start\<close>, \<^verbatim>\<open>stop\<close> and \<^verbatim>\<open>publish\<close> with the turns of
  its workers. A schedule lists them in the order they take effect; a \<^verbatim>\<open>publish\<close> call
  that workers interrupt between two events is the two calls on the two parts of its
  list. \<open>Consume now\<close> is one worker turn, \<open>now\<close> the clock text of the store in it.
  A call of \<^verbatim>\<open>publish\<close> and a worker turn are each taken whole: the store decides every
  call under its lock, and no decision of the code reads the counters it updates
  between two awaits.
  A failed \<^verbatim>\<open>publish\<close> keeps the service running (the caller gets the error), so a run
  continues from the aggregator it left.
\<close>

datatype 'p action = Start | Stop | Publish "'p event list" | Consume string

fun step :: "'p action \<Rightarrow> 'p aggregator \<times> disk \<Rightarrow> 'p aggregator \<times> disk" where
  "step Start (a, d) = (start a, d)"
| "step Stop (a, d) = (stop a, d)"
| "step (Publish evs) (a, d) = (snd (publish evs d a), d)"
| "step (Consume now) (a, d) = consume_events_step now a d"

fun run :: "'p action list \<Rightarrow> 'p aggregator \<times> disk \<Rightarrow> 'p aggregator \<times> disk" where
  "run [] w = w"
| "run (act # acts) w = run acts (step act w)"

fun published :: "'p action list \<Rightarrow> 'p event list" where
  "published [] = []"
| "published (Publish evs # acts) = evs @ published acts"
| "published (act # acts) = published acts"

section \<open>Properties of states\<close>

text \<open>
  \<open>known t ev\<close>: the table \<open>t\<close> has a record of the identity of \<open>ev\<close>. On a usable
  store this is the answer of \<^verbatim>\<open>is_processed\<close>, and it is the same throughout one
  \<^verbatim>\<open>publish\<close> call, which writes nothing to the store.
\<close>

definition known :: "row list \<Rightarrow> 'p event \<Rightarrow> bool" where
  "known t ev = has_key (topic ev) (event_id ev) t"

text \<open>Every event received is counted as unique, counted as duplicate, or still queued.\<close>

definition conserved :: "'p aggregator \<Rightarrow> bool" where
  "conserved a =
     (received (stats a) =
        unique_processed (stats a) + duplicate_dropped (stats a) + int (length (queue a)))"

text \<open>
  The state of a service that has received \<open>k\<close> events, all of the one identity
  \<open>(tp, eid)\<close>, over a store that was empty at first: until the identity is recorded
  every event is still queued; from then on exactly one was counted as unique.
\<close>

definition same_identity :: "string \<Rightarrow> string \<Rightarrow> 'p event \<Rightarrow> bool" where
  "same_identity tp eid ev = (topic ev = tp \<and> event_id ev = eid)"

definition idem_inv :: "string \<Rightarrow> string \<Rightarrow> nat \<Rightarrow> 'p aggregator \<Rightarrow> disk \<Rightarrow> bool" where
  "idem_inv tp eid k a d =
     (let t = the (db_table (dedup_store a) d)
      in received (stats a) = int k
         \<and> list_all (same_identity tp eid) (queue a)
         \<and> list_all (\<lambda>r. row_topic r = tp \<and> row_event_id r = eid) t
         \<and> (if t = []
            then unique_processed (stats a) = 0 \<and> duplicate_dropped (stats a) = 0
                 \<and> length (queue a) = k
            else unique_processed (stats a) = 1
                 \<and> 1 + duplicate_dropped (stats a) + int (length (queue a)) = int k))"

text \<open>
  What a store instance records over its life: a sequence of \<^verbatim>\<open>mark_processed\<close> calls,
  each with its arguments and the clock text of the store in it. A call that raises
  leaves the store as it was.
\<close>

fun mark_all :: "(string \<times> string \<times> string \<times> string) list \<Rightarrow> store \<Rightarrow> disk \<Rightarrow> store \<times> disk" where
  "mark_all [] s d = (s, d)"
| "mark_all ((tp, eid, ts, now) # calls) s d =
     (case mark_processed tp eid ts now s d of
        Inl e \<Rightarrow> mark_all calls s d
      | Inr (was_new, s', d') \<Rightarrow> mark_all calls s' d')"

text \<open>
  A restart as the persistence test makes it: the store is closed and a new
  \<^verbatim>\<open>DeduplicationStore\<close> is constructed on the same \<^verbatim>\<open>db_path\<close>.
\<close>

definition reopen :: "store \<Rightarrow> disk \<Rightarrow> store \<times> disk" where
  "reopen s d = DeduplicationStore_init (db_path (close s)) d"

text \<open>The order of \<^verbatim>\<open>ORDER BY processed_at DESC\<close>: no row before one with a greater text.\<close>

definition newest_first :: "row list \<Rightarrow> bool" where
  "newest_first rs = sorted_wrt (\<lambda>x y. row_processed_at y \<le> row_processed_at x) rs"

text \<open>
  The instant the spec measures \<^verbatim>\<open>uptime\<close> from: in a schedule that gives each call the
  wall-clock time at which it is invoked, the time of the first \<^verbatim>\<open>start()\<close>.
\<close>

fun pool_started_at :: "(real \<times> 'p action) list \<Rightarrow> real option" where
  "pool_started_at [] = None"
| "pool_started_at ((t, Start) # calls) = Some t"
| "pool_started_at ((t, act) # calls) = pool_started_at calls"

section \<open>Example data\<close>

text \<open>An event as the tests build it, a store on a database file, and that file with one record.\<close>

definition test_event :: "string \<Rightarrow> string \<Rightarrow> string \<Rightarrow> unit event" where
  "test_event tp eid ts =
     \<lparr>topic = tp, event_id = eid, timestamp = ts, source = ''test'', payload = ()\<rparr>"

definition test_store :: store where
  "test_store = \<lparr>db_path = ''test.db'', conn_open = True, mem = None\<rparr>"

definition test_disk :: disk where
  "test_disk =
     (\<lambda>p. None)(''test.db'' :=
        Some [(''topic_a'', ''evt_0'', ''2025-10-18T10:00:00Z'', ''2025-10-18T10:00:01+00:00'')])"

definition empty_disk :: disk where
  "empty_disk = (\<lambda>p. None)"

text \<open>A database file with records of two topics.\<close>

definition two_topic_disk :: disk where
  "two_topic_disk =
     (\<lambda>p. None)(''test.db'' :=
        Some [(''topic_a'', ''evt_a_0'', ''2025-10-18T10:00:00Z'', ''2025-10-18T10:00:01+00:00''),
              (''topic_b'', ''evt_b_0'', ''2025-10-18T10:00:00Z'', ''2025-10-18T10:00:02+00:00'')])"

text \<open>
  The schedule of the first test: the service starts, one \<^verbatim>\<open>publish\<close> call brings two
  events of the same identity with different timestamps, and two worker turns drain
  the queue.
\<close>

definition test_schedule :: "unit action list" where
  "test_schedule =
     [Start,
      Publish [test_event ''test.topic'' ''evt_001'' ''2025-10-18T10:00:00Z'',
               test_event ''test.topic'' ''evt_001'' ''2025-10-18T10:01:00Z''],
      Consume ''2025-10-18T10:00:02+00:00'',
      Consume ''2025-10-18T10:00:03+00:00'']"

definition new_service :: "unit aggregator \<times> disk" where
  "new_service =
     (EventAggregator_init 0 (fst (DeduplicationStore_init ''test.db'' empty_disk)),
      snd (DeduplicationStore_init ''test.db'' empty_disk))"

section \<open>Facts about the store\<close>

lemma select_rows_ok: "store_ok s d \<Longrightarrow> select_rows s d = Inr (the (db_table s d))"
  by (auto simp: store_ok_def select_rows_def)

lemma select_rows_Inr: "select_rows s d = Inr t \<Longrightarrow> store_ok s d \<and> db_table s d = Some t"
  by (auto simp: store_ok_def select_rows_def split: if_splits option.splits)

lemma db_table_db_write: "db_table (fst (db_write t s d)) (snd (db_write t s d)) = Some t"
  by (simp add: db_table_def db_write_def)

lemma conn_open_db_write: "conn_open (fst (db_write t s d)) = conn_open s"
  by (simp add: db_write_def)

lemma db_path_db_write: "db_path (fst (db_write t s d)) = db_path s"
  by (simp add: db_write_def)

lemma store_ok_db_write: "conn_open s \<Longrightarrow> store_ok (fst (db_write t s d)) (snd (db_write t s d))"
  by (simp add: store_ok_def db_table_db_write conn_open_db_write)

lemma store_ok_init:
  "store_ok (fst (DeduplicationStore_init p d)) (snd (DeduplicationStore_init p d))"
  by (auto simp: DeduplicationStore_init_def Let_def store_ok_def db_table_def db_write_def
      split: option.splits)

lemma sync_check_ok: "store_ok s d \<Longrightarrow> sync_check tp eid s d = Inr (has_key tp eid (the (db_table s d)))"
  by (simp add: sync_check_def select_rows_ok)

lemma has_key_append:
  "has_key tp eid (t @ [r]) = (has_key tp eid t \<or> (row_topic r = tp \<and> row_event_id r = eid))"
  by (simp add: has_key_def)

lemma sync_mark_new:
  assumes "store_ok s d" and "\<not> has_key tp eid (the (db_table s d))"
  shows "sync_mark tp eid ts now s d =
           Inr (True, db_write (the (db_table s d) @ [(tp, eid, ts, now)]) s d)"
  using assms
  by (simp add: sync_mark_def insert_row_def select_rows_ok row_topic_def row_event_id_def
      split: prod.splits)

lemma sync_mark_dup:
  assumes "store_ok s d" and "has_key tp eid (the (db_table s d))"
  shows "sync_mark tp eid ts now s d = Inr (False, s, d)"
  using assms
  by (simp add: sync_mark_def insert_row_def select_rows_ok row_topic_def row_event_id_def)

text \<open>
  C1. On a store whose connection is open, \<^verbatim>\<open>mark_processed\<close> raises nothing and returns
  \<open>True\<close> exactly when no record of the identity existed; then the table gains the one
  row \<open>(topic, event_id, timestamp, now)\<close>, whose \<^verbatim>\<open>processed_at\<close> is the store's own
  clock reading, and the identity is recorded afterwards. When a record existed the
  result is \<open>False\<close> and the store and the database are left exactly as they were, so
  the caller's timestamp overwrites nothing.
\<close>

theorem mark_processed_insert_if_absent:
  assumes "store_ok s d"
  shows "\<exists>b s' d'. mark_processed tp eid ts now s d = Inr (b, s', d')
           \<and> b = (\<not> has_key tp eid (the (db_table s d)))
           \<and> is_processed tp eid s' d' = Inr True
           \<and> (b \<longrightarrow> db_table s' d' = Some (the (db_table s d) @ [(tp, eid, ts, now)]))
           \<and> (\<not> b \<longrightarrow> s' = s \<and> d' = d)"
proof (cases "has_key tp eid (the (db_table s d))")
  case True
  have "mark_processed tp eid ts now s d = Inr (False, s, d)"
    using assms True by (simp add: mark_processed_def sync_mark_dup)
  moreover have "is_processed tp eid s d = Inr True"
    using assms True by (simp add: is_processed_def sync_check_ok)
  ultimately show ?thesis
    using True by (intro exI [of _ False] exI [of _ s] exI [of _ d]) simp
next
  case False
  let ?t = "the (db_table s d) @ [(tp, eid, ts, now)]"
  obtain s' d' where w: "db_write ?t s d = (s', d')" by (cases "db_write ?t s d")
  have m: "mark_processed tp eid ts now s d = Inr (True, s', d')"
    using assms False w by (simp add: mark_processed_def sync_mark_new)
  have tab: "db_table s' d' = Some ?t"
    using db_table_db_write [of ?t s d] w by simp
  have ok: "store_ok s' d'"
    using store_ok_db_write [of s ?t d] assms w by (simp add: store_ok_def)
  have "is_processed tp eid s' d' = Inr True"
    using ok tab
    by (simp add: is_processed_def sync_check_ok has_key_append row_topic_def row_event_id_def)
  with m tab False show ?thesis
    by (intro exI [of _ True] exI [of _ s'] exI [of _ d']) simp
qed

theorem mark_processed_insert_if_absent_witness:
  "mark_processed ''t'' ''e'' ''2025-10-18T10:01:00Z'' ''2025-10-19T00:00:00+00:00''
      \<lparr>db_path = ''a.db'', conn_open = True, mem = None\<rparr>
      ((\<lambda>p. None)(''a.db'' := Some [(''t'', ''e'', ''2025-10-18T10:00:00Z'', ''2025-10-18T12:00:00+00:00'')]))
    = Inr (False, \<lparr>db_path = ''a.db'', conn_open = True, mem = None\<rparr>,
      ((\<lambda>p. None)(''a.db'' := Some [(''t'', ''e'', ''2025-10-18T10:00:00Z'', ''2025-10-18T12:00:00+00:00'')])))"
proof -
  let ?s = "\<lparr>db_path = ''a.db'', conn_open = True, mem = None\<rparr>"
  let ?d = "((\<lambda>p. None)(''a.db'' := Some [(''t'', ''e'', ''2025-10-18T10:00:00Z'', ''2025-10-18T12:00:00+00:00'')]))
              :: disk"
  have tab: "db_table ?s ?d = Some [(''t'', ''e'', ''2025-10-18T10:00:00Z'', ''2025-10-18T12:00:00+00:00'')]"
    by (simp add: db_table_def is_file_path_def)
  have ok: "store_ok ?s ?d"
    by (simp add: store_ok_def tab)
  have key: "has_key ''t'' ''e'' (the (db_table ?s ?d))"
    by (simp add: tab has_key_def row_topic_def row_event_id_def)
  from mark_processed_insert_if_absent [OF ok, of "''t''" "''e''" "''2025-10-18T10:01:00Z''"
      "''2025-10-19T00:00:00+00:00''"] key
  show ?thesis by auto
qed

section \<open>Facts about publish\<close>

lemma publish_loop_closed:
  assumes "store_ok (dedup_store a) d"
  shows "publish_loop evs d res a =
           (Inr (res\<lparr>accepted := accepted res
                          + int (length (filter (\<lambda>ev. \<not> known (the (db_table (dedup_store a) d)) ev) evs)),
                      rejected := rejected res
                          + int (length (filter (known (the (db_table (dedup_store a) d))) evs)),
                      duplicates_immediate := duplicates_immediate res
                          + int (length (filter (known (the (db_table (dedup_store a) d))) evs))\<rparr>),
            a\<lparr>queue := queue a @ filter (\<lambda>ev. \<not> known (the (db_table (dedup_store a) d)) ev) evs,
              stats := (stats a)\<lparr>received := received (stats a) + int (length evs),
                                 duplicate_dropped := duplicate_dropped (stats a)
                                   + int (length (filter (known (the (db_table (dedup_store a) d))) evs))\<rparr>\<rparr>)"
  using assms
proof (induction evs arbitrary: res a)
  case Nil
  then show ?case by simp
next
  case (Cons ev evs)
  let ?a1 = "a\<lparr>stats := (stats a)\<lparr>received := received (stats a) + 1\<rparr>\<rparr>"
  have chk: "is_processed (topic ev) (event_id ev) (dedup_store ?a1) d
               = Inr (known (the (db_table (dedup_store a) d)) ev)"
    using Cons.prems by (simp add: is_processed_def sync_check_ok known_def)
  show ?case
  proof (cases "known (the (db_table (dedup_store a) d)) ev")
    case True
    let ?a2 = "?a1\<lparr>stats := (stats ?a1)\<lparr>duplicate_dropped := duplicate_dropped (stats ?a1) + 1\<rparr>\<rparr>"
    have ok2: "store_ok (dedup_store ?a2) d" using Cons.prems by simp
    show ?thesis
      using chk True Cons.IH [OF ok2] by (simp add: Let_def)
  next
    case False
    let ?a2 = "?a1\<lparr>queue := queue ?a1 @ [ev]\<rparr>"
    have ok2: "store_ok (dedup_store ?a2) d" using Cons.prems by simp
    show ?thesis
      using chk False Cons.IH [OF ok2] by (simp add: Let_def)
  qed
qed

lemma publish_closed:
  assumes "store_ok (dedup_store a) d"
  shows "publish evs d a =
           (Inr \<lparr>accepted = int (length (filter (\<lambda>ev. \<not> known (the (db_table (dedup_store a) d)) ev) evs)),
                 rejected = int (length (filter (known (the (db_table (dedup_store a) d))) evs)),
                 duplicates_immediate = int (length (filter (known (the (db_table (dedup_store a) d))) evs))\<rparr>,
            a\<lparr>queue := queue a @ filter (\<lambda>ev. \<not> known (the (db_table (dedup_store a) d)) ev) evs,
              stats := (stats a)\<lparr>received := received (stats a) + int (length evs),
                                 duplicate_dropped := duplicate_dropped (stats a)
                                   + int (length (filter (known (the (db_table (dedup_store a) d))) evs))\<rparr>\<rparr>)"
  using publish_loop_closed [OF assms, of evs "\<lparr>accepted = 0, rejected = 0, duplicates_immediate = 0\<rparr>"]
  by (simp add: publish_def)

text \<open>
  A \<^verbatim>\<open>publish\<close> call on a usable store leaves the aggregator that the two calls on the
  two parts of its list leave, so a schedule can split a call where a worker turn falls
  between two of its events.
\<close>

lemma publish_split:
  assumes "store_ok (dedup_store a) d"
  shows "snd (publish (xs @ ys) d a) = snd (publish ys d (snd (publish xs d a)))"
  using assms by (simp add: publish_closed)

lemma publish_loop_not_ok:
  assumes "\<not> store_ok (dedup_store a) d"
  shows "\<exists>e. fst (publish_loop (ev # evs) d res a) = Inl e"
proof -
  have "\<exists>e. select_rows (dedup_store a) d = Inl e"
    using assms by (auto simp: store_ok_def select_rows_def split: option.splits)
  then show ?thesis
    by (auto simp: is_processed_def sync_check_def Let_def)
qed

lemma publish_returns:
  assumes "fst (publish evs d a) = Inr r"
  shows "evs = [] \<or> store_ok (dedup_store a) d"
proof (cases evs)
  case Nil
  then show ?thesis by simp
next
  case (Cons ev evs')
  show ?thesis
  proof (rule ccontr)
    assume "\<not> ?thesis"
    then have "\<not> store_ok (dedup_store a) d" by simp
    from publish_loop_not_ok [OF this, of ev evs' "\<lparr>accepted = 0, rejected = 0, duplicates_immediate = 0\<rparr>"]
    show False using assms Cons by (simp add: publish_def)
  qed
qed

lemma publish_loop_unique:
  "unique_processed (stats (snd (publish_loop evs d res a))) = unique_processed (stats a)"
  by (induction evs arbitrary: res a) (auto simp: Let_def split: sum.splits)

lemma publish_loop_store:
  "dedup_store (snd (publish_loop evs d res a)) = dedup_store a"
  by (induction evs arbitrary: res a) (auto simp: Let_def split: sum.splits)

lemma length_filter_split:
  "int (length (filter (\<lambda>x. \<not> P x) xs)) + int (length (filter P xs)) = int (length xs)"
  using sum_length_filter_compl [of P xs] by linarith

text \<open>
  C4. On a usable store \<^verbatim>\<open>publish\<close> raises nothing and handles the events in list order:
  \<^verbatim>\<open>received\<close> grows by one per event; the events whose identity the store has are
  counted in \<^verbatim>\<open>duplicates_immediate\<close>, \<^verbatim>\<open>rejected\<close> and \<^verbatim>\<open>duplicate_dropped\<close> and do not
  reach the queue; the others are appended to the queue in their order and counted in
  \<^verbatim>\<open>accepted\<close>.
\<close>

theorem publish_per_event:
  assumes "store_ok (dedup_store a) d"
  shows "publish evs d a =
           (Inr \<lparr>accepted = int (length (filter (\<lambda>ev. \<not> known (the (db_table (dedup_store a) d)) ev) evs)),
                 rejected = int (length (filter (known (the (db_table (dedup_store a) d))) evs)),
                 duplicates_immediate = int (length (filter (known (the (db_table (dedup_store a) d))) evs))\<rparr>,
            a\<lparr>queue := queue a @ filter (\<lambda>ev. \<not> known (the (db_table (dedup_store a) d)) ev) evs,
              stats := (stats a)\<lparr>received := received (stats a) + int (length evs),
                                 duplicate_dropped := duplicate_dropped (stats a)
                                   + int (length (filter (known (the (db_table (dedup_store a) d))) evs))\<rparr>\<rparr>)"
  by (rule publish_closed [OF assms])

text \<open>
  C10. Whenever \<^verbatim>\<open>publish\<close> returns a result, \<^verbatim>\<open>accepted + rejected\<close> is the number of
  events, \<^verbatim>\<open>rejected\<close> equals \<^verbatim>\<open>duplicates_immediate\<close>, and \<^verbatim>\<open>received\<close> has grown by the
  number of events; it does return one on a usable store; and \<^verbatim>\<open>unique_processed\<close> is
  the same after every call, returned or raised.
\<close>

theorem publish_result_counts:
  "(store_ok (dedup_store a) d \<longrightarrow> (\<exists>r. fst (publish evs d a) = Inr r))
   \<and> (\<forall>r. fst (publish evs d a) = Inr r \<longrightarrow>
          accepted r + rejected r = int (length evs)
          \<and> rejected r = duplicates_immediate r
          \<and> received (stats (snd (publish evs d a))) = received (stats a) + int (length evs))
   \<and> unique_processed (stats (snd (publish evs d a))) = unique_processed (stats a)"
proof (intro conjI allI impI)
  assume "store_ok (dedup_store a) d"
  then show "\<exists>r. fst (publish evs d a) = Inr r"
    by (simp add: publish_closed)
next
  show "unique_processed (stats (snd (publish evs d a))) = unique_processed (stats a)"
    by (simp add: publish_def publish_loop_unique)
next
  fix r assume r: "fst (publish evs d a) = Inr r"
  from publish_returns [OF r] consider "evs = []" | "store_ok (dedup_store a) d" by blast
  then have "accepted r + rejected r = int (length evs)
      \<and> rejected r = duplicates_immediate r
      \<and> received (stats (snd (publish evs d a))) = received (stats a) + int (length evs)"
  proof cases
    case 1
    then show ?thesis using r by (auto simp: publish_def)
  next
    case 2
    show ?thesis
      using r length_filter_split [of "known (the (db_table (dedup_store a) d))" evs]
      by (auto simp: publish_closed [OF 2])
  qed
  then show "accepted r + rejected r = int (length evs)"
    and "rejected r = duplicates_immediate r"
    and "received (stats (snd (publish evs d a))) = received (stats a) + int (length evs)"
    by simp_all
qed

section \<open>Facts about the workers and about runs\<close>

lemma consume_step_cases:
  assumes "store_ok (dedup_store a) d" and "consume_events_step now a d = (a', d')"
  shows "(a' = a \<and> d' = d)
     \<or> (\<exists>ev q. queue a = ev # q \<and> known (the (db_table (dedup_store a) d)) ev
            \<and> queue a' = q
            \<and> stats a' = (stats a)\<lparr>duplicate_dropped := duplicate_dropped (stats a) + 1\<rparr>
            \<and> dedup_store a' = dedup_store a \<and> d' = d)
     \<or> (\<exists>ev q. queue a = ev # q \<and> \<not> known (the (db_table (dedup_store a) d)) ev
            \<and> queue a' = q
            \<and> stats a' = (stats a)\<lparr>unique_processed := unique_processed (stats a) + 1\<rparr>
            \<and> (dedup_store a', d') =
                 db_write (the (db_table (dedup_store a) d)
                             @ [(topic ev, event_id ev, timestamp ev, now)]) (dedup_store a) d)"
proof (cases "Pending \<in> set (consumer_tasks a) \<and> (running a \<or> queue a \<noteq> [])")
  case False
  then show ?thesis using assms(2) by (auto simp: consume_events_step_def)
next
  case live: True
  show ?thesis
  proof (cases "queue a")
    case Nil
    then show ?thesis using assms(2) live by (auto simp: consume_events_step_def)
  next
    case (Cons ev q)
    have ok: "store_ok (dedup_store (a\<lparr>queue := q\<rparr>)) d" using assms(1) by simp
    show ?thesis
    proof (cases "known (the (db_table (dedup_store a) d)) ev")
      case True
      then have "process_event now ev (a\<lparr>queue := q\<rparr>) d =
          Inr (a\<lparr>queue := q, stats := (stats a)\<lparr>duplicate_dropped := duplicate_dropped (stats a) + 1\<rparr>\<rparr>, d)"
        using assms(1) by (simp add: process_event_def mark_processed_def sync_mark_dup known_def)
      then show ?thesis
        using assms(2) live Cons True by (auto simp: consume_events_step_def)
    next
      case False
      let ?w = "db_write (the (db_table (dedup_store a) d)
                            @ [(topic ev, event_id ev, timestamp ev, now)]) (dedup_store a) d"
      from False have "process_event now ev (a\<lparr>queue := q\<rparr>) d =
          Inr (a\<lparr>queue := q, dedup_store := fst ?w,
                 stats := (stats a)\<lparr>unique_processed := unique_processed (stats a) + 1\<rparr>\<rparr>, snd ?w)"
        using assms(1)
        by (simp add: process_event_def mark_processed_def sync_mark_new known_def split: prod.splits)
      then show ?thesis
        using assms(2) live Cons False by (auto simp: consume_events_step_def)
    qed
  qed
qed

lemma store_ok_db_write_pair:
  assumes "conn_open s" and "(s', d') = db_write t s d"
  shows "store_ok s' d'" and "db_table s' d' = Some t"
  using store_ok_db_write [OF assms(1), of t d] db_table_db_write [of t s d] assms(2)
  by (metis fst_conv snd_conv)+

lemma step_conserved:
  assumes "store_ok (dedup_store a) d" and "conserved a" and "act \<noteq> Stop"
    and "step act (a, d) = (a', d')"
  shows "store_ok (dedup_store a') d' \<and> conserved a'"
proof (cases act)
  case Start
  then show ?thesis using assms by (auto simp: start_def conserved_def)
next
  case Stop
  then show ?thesis using assms by simp
next
  case (Publish evs)
  show ?thesis
    using assms Publish length_filter_split [of "known (the (db_table (dedup_store a) d))" evs]
    by (auto simp: publish_closed conserved_def)
next
  case (Consume now)
  then have c: "consume_events_step now a d = (a', d')" using assms(4) by simp
  from consume_step_cases [OF assms(1) c] show ?thesis
  proof (elim disjE exE conjE)
    assume "a' = a" "d' = d"
    then show ?thesis using assms by simp
  next
    fix ev q
    assume "queue a = ev # q" "queue a' = q"
      "stats a' = (stats a)\<lparr>duplicate_dropped := duplicate_dropped (stats a) + 1\<rparr>"
      "dedup_store a' = dedup_store a" "d' = d"
    then show ?thesis using assms(1,2) by (simp add: conserved_def)
  next
    fix ev q
    assume q: "queue a = ev # q" "queue a' = q"
      "stats a' = (stats a)\<lparr>unique_processed := unique_processed (stats a) + 1\<rparr>"
      and w: "(dedup_store a', d') =
                 db_write (the (db_table (dedup_store a) d)
                             @ [(topic ev, event_id ev, timestamp ev, now)]) (dedup_store a) d"
    have "conn_open (dedup_store a)" using assms(1) by (simp add: store_ok_def)
    from store_ok_db_write_pair(1) [OF this w] q show ?thesis
      using assms(2) by (simp add: conserved_def)
  qed
qed

lemma run_conserved:
  assumes "store_ok (dedup_store a) d" and "conserved a" and "Stop \<notin> set acts"
  shows "store_ok (dedup_store (fst (run acts (a, d)))) (snd (run acts (a, d)))
           \<and> conserved (fst (run acts (a, d)))"
  using assms
proof (induction acts arbitrary: a d)
  case Nil
  then show ?case by simp
next
  case (Cons act acts)
  obtain a' d' where st: "step act (a, d) = (a', d')" by (cases "step act (a, d)")
  have "act \<noteq> Stop" using Cons.prems(3) by auto
  from step_conserved [OF Cons.prems(1,2) this st]
  have "store_ok (dedup_store a') d'" and "conserved a'" by simp_all
  from Cons.IH [OF this] Cons.prems(3) show ?case by (simp add: st)
qed

text \<open>
  C3. From a new aggregator over a usable store, after any schedule of \<^verbatim>\<open>start\<close>,
  \<^verbatim>\<open>publish\<close> calls and worker turns (no \<^verbatim>\<open>stop\<close>), \<^verbatim>\<open>received\<close> is the sum of
  \<^verbatim>\<open>unique_processed\<close>, \<^verbatim>\<open>duplicate_dropped\<close> and the number of events still queued;
  so once the queue is drained, \<^verbatim>\<open>received == unique_processed + duplicate_dropped\<close>.
\<close>

theorem counter_conservation:
  assumes "store_ok s d" and "Stop \<notin> set acts"
    and "queue (fst (run acts (EventAggregator_init t0 s, d))) = []"
  shows "received (stats (fst (run acts (EventAggregator_init t0 s, d)))) =
           unique_processed (stats (fst (run acts (EventAggregator_init t0 s, d))))
           + duplicate_dropped (stats (fst (run acts (EventAggregator_init t0 s, d))))"
proof -
  have "store_ok (dedup_store (EventAggregator_init t0 s :: 'a aggregator)) d"
    using assms(1) by (simp add: EventAggregator_init_def)
  moreover have "conserved (EventAggregator_init t0 s :: 'a aggregator)"
    by (simp add: EventAggregator_init_def conserved_def)
  ultimately have "conserved (fst (run acts (EventAggregator_init t0 s, d)))"
    using run_conserved [of "EventAggregator_init t0 s" d acts] assms(2) by simp
  then show ?thesis using assms(3) by (simp add: conserved_def)
qed

lemma new_service_eq:
  "new_service =
     (EventAggregator_init 0 \<lparr>db_path = ''test.db'', conn_open = True, mem = None\<rparr>,
      empty_disk(''test.db'' := Some []))"
  by (simp add: new_service_def DeduplicationStore_init_def db_table_def db_write_def
      is_file_path_def empty_disk_def)

lemma test_store_table:
  "db_table \<lparr>db_path = ''test.db'', conn_open = True, mem = None\<rparr> (empty_disk(''test.db'' := Some t))
     = Some t"
  by (simp add: db_table_def is_file_path_def)

lemma pending_after_start: "Pending \<in> (\<lambda>i. Pending) ` {0..<5::nat}"
  by (rule image_eqI [of _ _ 0]) simp_all

lemma test_run_stats:
  "stats (fst (run test_schedule new_service)) =
     \<lparr>received = 2, unique_processed = 1, duplicate_dropped = 1, start_time = 0\<rparr>"
  by (simp add: new_service_eq test_schedule_def test_event_def EventAggregator_init_def
      start_def publish_def is_processed_def sync_check_def select_rows_def test_store_table
      has_key_def row_topic_def row_event_id_def consume_events_step_def process_event_def
      mark_processed_def sync_mark_def insert_row_def db_write_def is_file_path_def Let_def
      pending_after_start)

lemma test_run_queue: "queue (fst (run test_schedule new_service)) = []"
  by (simp add: new_service_eq test_schedule_def test_event_def EventAggregator_init_def
      start_def publish_def is_processed_def sync_check_def select_rows_def test_store_table
      has_key_def row_topic_def row_event_id_def consume_events_step_def process_event_def
      mark_processed_def sync_mark_def insert_row_def db_write_def is_file_path_def Let_def
      pending_after_start)

theorem counter_conservation_witness:
  "store_ok (dedup_store (fst new_service)) (snd new_service)
   \<and> Stop \<notin> set test_schedule
   \<and> queue (fst (run test_schedule new_service)) = []
   \<and> received (stats (fst (run test_schedule new_service))) = 2
   \<and> unique_processed (stats (fst (run test_schedule new_service)))
       + duplicate_dropped (stats (fst (run test_schedule new_service))) = 2"
proof -
  let ?s = "\<lparr>db_path = ''test.db'', conn_open = True, mem = None\<rparr>"
  let ?d = "empty_disk(''test.db'' := Some [])"
  have w: "new_service = (EventAggregator_init 0 ?s, ?d)" by (rule new_service_eq)
  have ok: "store_ok ?s ?d" by (simp add: store_ok_def test_store_table)
  have ns: "Stop \<notin> set test_schedule" by (simp add: test_schedule_def)
  have q: "queue (fst (run test_schedule (EventAggregator_init 0 ?s, ?d))) = []"
    using test_run_queue by (simp add: w)
  from counter_conservation [OF ok ns q] have
    "received (stats (fst (run test_schedule new_service))) =
       unique_processed (stats (fst (run test_schedule new_service)))
       + duplicate_dropped (stats (fst (run test_schedule new_service)))"
    by (simp add: w)
  moreover have "received (stats (fst (run test_schedule new_service))) = 2"
    by (simp add: test_run_stats)
  moreover have "store_ok (dedup_store (fst new_service)) (snd new_service)"
    using ok by (simp add: w EventAggregator_init_def)
  ultimately show ?thesis using ns test_run_queue by simp
qed

section \<open>Idempotency\<close>

lemma known_same:
  assumes "list_all (\<lambda>r. row_topic r = tp \<and> row_event_id r = eid) t"
    and "same_identity tp eid ev"
  shows "known t ev = (t \<noteq> [])"
  using assms by (cases t) (auto simp: known_def has_key_def same_identity_def)

lemma filter_known_same:
  assumes "list_all (\<lambda>r. row_topic r = tp \<and> row_event_id r = eid) t"
    and "list_all (same_identity tp eid) evs"
  shows "filter (known t) evs = (if t = [] then [] else evs)"
    and "filter (\<lambda>ev. \<not> known t ev) evs = (if t = [] then evs else [])"
  using assms by (induction evs) (auto simp: known_same)

lemma published_Cons: "published (act # acts) = published [act] @ published acts"
  by (cases act) simp_all

lemma step_idem:
  assumes ok: "store_ok (dedup_store a) d" and inv: "idem_inv tp eid k a d"
    and ns: "act \<noteq> Stop"
    and same: "list_all (same_identity tp eid) (published [act])"
    and st: "step act (a, d) = (a', d')"
  shows "store_ok (dedup_store a') d' \<and> idem_inv tp eid (k + length (published [act])) a' d'"
proof (cases act)
  case Start
  then show ?thesis using ok inv st by (auto simp: start_def idem_inv_def Let_def)
next
  case Stop
  then show ?thesis using ns by simp
next
  case (Publish evs)
  let ?t = "the (db_table (dedup_store a) d)"
  have rows: "list_all (\<lambda>r. row_topic r = tp \<and> row_event_id r = eid) ?t"
    using inv by (simp add: idem_inv_def Let_def)
  have evs: "list_all (same_identity tp eid) evs" using same Publish by simp
  show ?thesis
  proof (cases "?t = []")
    case True
    then show ?thesis
      using ok inv st Publish evs filter_known_same [OF rows evs]
      by (auto simp: publish_closed idem_inv_def Let_def)
  next
    case False
    then show ?thesis
      using ok inv st Publish evs filter_known_same [OF rows evs]
      by (auto simp: publish_closed idem_inv_def Let_def)
  qed
next
  case (Consume now)
  let ?t = "the (db_table (dedup_store a) d)"
  have rows: "list_all (\<lambda>r. row_topic r = tp \<and> row_event_id r = eid) ?t"
    using inv by (simp add: idem_inv_def Let_def)
  have c: "consume_events_step now a d = (a', d')" using st Consume by simp
  have len: "length (published [act]) = 0" using Consume by simp
  from consume_step_cases [OF ok c] show ?thesis
  proof (elim disjE exE conjE)
    assume "a' = a" "d' = d"
    then show ?thesis using ok inv len by simp
  next
    fix ev q
    assume q: "queue a = ev # q" "queue a' = q"
      "stats a' = (stats a)\<lparr>duplicate_dropped := duplicate_dropped (stats a) + 1\<rparr>"
      "dedup_store a' = dedup_store a" "d' = d"
      and kn: "known ?t ev"
    have "same_identity tp eid ev" using inv q(1) by (simp add: idem_inv_def Let_def)
    from known_same [OF rows this] kn have "?t \<noteq> []" by simp
    then show ?thesis using ok inv q len by (simp add: idem_inv_def Let_def)
  next
    fix ev q
    assume q: "queue a = ev # q" "queue a' = q"
      "stats a' = (stats a)\<lparr>unique_processed := unique_processed (stats a) + 1\<rparr>"
      and kn: "\<not> known ?t ev"
      and w: "(dedup_store a', d') =
                 db_write (?t @ [(topic ev, event_id ev, timestamp ev, now)]) (dedup_store a) d"
    have same_ev: "same_identity tp eid ev" using inv q(1) by (simp add: idem_inv_def Let_def)
    from known_same [OF rows this] kn have empty: "?t = []" by simp
    have "conn_open (dedup_store a)" using ok by (simp add: store_ok_def)
    from store_ok_db_write_pair [OF this w]
    have ok': "store_ok (dedup_store a') d'"
      and tab: "db_table (dedup_store a') d' = Some (?t @ [(topic ev, event_id ev, timestamp ev, now)])"
      by simp_all
    have "idem_inv tp eid k a' d'"
      using inv q same_ev empty tab
      by (simp add: idem_inv_def Let_def same_identity_def row_topic_def row_event_id_def)
    then show ?thesis using ok' len by simp
  qed
qed

lemma run_idem:
  assumes "store_ok (dedup_store a) d" and "idem_inv tp eid k a d" and "Stop \<notin> set acts"
    and "list_all (same_identity tp eid) (published acts)"
  shows "idem_inv tp eid (k + length (published acts))
           (fst (run acts (a, d))) (snd (run acts (a, d)))"
  using assms
proof (induction acts arbitrary: a d k)
  case Nil
  then show ?case by simp
next
  case (Cons act acts)
  obtain a' d' where st: "step act (a, d) = (a', d')" by (cases "step act (a, d)")
  have ns: "act \<noteq> Stop" and ns': "Stop \<notin> set acts" using Cons.prems(3) by auto
  have pub: "published (act # acts) = published [act] @ published acts"
    by (rule published_Cons)
  have same1: "list_all (same_identity tp eid) (published [act])"
    and same2: "list_all (same_identity tp eid) (published acts)"
    using Cons.prems(4) pub by simp_all
  from step_idem [OF Cons.prems(1,2) ns same1 st]
  have ok': "store_ok (dedup_store a') d'"
    and inv': "idem_inv tp eid (k + length (published [act])) a' d'" by simp_all
  from Cons.IH [OF ok' inv' ns' same2] show ?case
    by (simp add: st pub add.assoc)
qed

text \<open>
  C2. From a new aggregator over an empty, usable store, after any schedule of
  \<^verbatim>\<open>start\<close>, \<^verbatim>\<open>publish\<close> calls and worker turns (no \<^verbatim>\<open>stop\<close>) in which every published
  event has the identity \<open>(tp, eid)\<close> and \<open>N \<ge> 1\<close> events were published in all: once
  the queue is drained, \<^verbatim>\<open>unique_processed == 1\<close> and \<^verbatim>\<open>duplicate_dropped == N - 1\<close>.
\<close>

theorem idempotency:
  assumes "store_ok s d" and "db_table s d = Some []" and "Stop \<notin> set acts"
    and "\<forall>ev \<in> set (published acts). topic ev = tp \<and> event_id ev = eid"
    and "1 \<le> length (published acts)"
    and "queue (fst (run acts (EventAggregator_init t0 s, d))) = []"
  shows "unique_processed (stats (fst (run acts (EventAggregator_init t0 s, d)))) = 1
         \<and> duplicate_dropped (stats (fst (run acts (EventAggregator_init t0 s, d))))
             = int (length (published acts)) - 1"
proof -
  let ?a0 = "EventAggregator_init t0 s :: 'a aggregator"
  have ok: "store_ok (dedup_store ?a0) d"
    using assms(1) by (simp add: EventAggregator_init_def)
  have inv0: "idem_inv tp eid 0 ?a0 d"
    using assms(2) by (simp add: idem_inv_def EventAggregator_init_def)
  have same: "list_all (same_identity tp eid) (published acts)"
    using assms(4) by (simp add: list_all_iff same_identity_def)
  from run_idem [OF ok inv0 assms(3) same]
  have "idem_inv tp eid (length (published acts)) (fst (run acts (?a0, d))) (snd (run acts (?a0, d)))"
    by simp
  then show ?thesis
    using assms(5,6) by (auto simp: idem_inv_def Let_def split: if_splits)
qed

theorem idempotency_witness:
  "store_ok (dedup_store (fst new_service)) (snd new_service)
   \<and> db_table (dedup_store (fst new_service)) (snd new_service) = Some []
   \<and> Stop \<notin> set test_schedule
   \<and> list_all (\<lambda>ev. topic ev = ''test.topic'' \<and> event_id ev = ''evt_001'') (published test_schedule)
   \<and> length (published test_schedule) = 2
   \<and> queue (fst (run test_schedule new_service)) = []
   \<and> unique_processed (stats (fst (run test_schedule new_service))) = 1
   \<and> duplicate_dropped (stats (fst (run test_schedule new_service))) = 2 - 1"
proof -
  let ?s = "\<lparr>db_path = ''test.db'', conn_open = True, mem = None\<rparr>"
  let ?d = "empty_disk(''test.db'' := Some [])"
  have w: "new_service = (EventAggregator_init 0 ?s, ?d)" by (rule new_service_eq)
  have tab: "db_table ?s ?d = Some []" by (rule test_store_table)
  have ok: "store_ok ?s ?d" by (simp add: store_ok_def tab)
  have ns: "Stop \<notin> set test_schedule" by (simp add: test_schedule_def)
  have same: "\<forall>ev \<in> set (published test_schedule).
                topic ev = ''test.topic'' \<and> event_id ev = ''evt_001''"
    by (simp add: test_schedule_def test_event_def)
  have len: "length (published test_schedule) = 2" by (simp add: test_schedule_def)
  have n1: "1 \<le> length (published test_schedule)" by (simp add: len)
  have q: "queue (fst (run test_schedule (EventAggregator_init 0 ?s, ?d))) = []"
    using test_run_queue by (simp add: w)
  from idempotency [OF ok tab ns same n1 q]
  have "unique_processed (stats (fst (run test_schedule new_service))) = 1
        \<and> duplicate_dropped (stats (fst (run test_schedule new_service))) = 2 - 1"
    by (simp add: w len)
  moreover have "store_ok (dedup_store (fst new_service)) (snd new_service)"
    and "db_table (dedup_store (fst new_service)) (snd new_service) = Some []"
    using ok tab by (simp_all add: w EventAggregator_init_def)
  ultimately show ?thesis using ns same len test_run_queue by (simp add: list_all_iff)
qed

section \<open>The results of publish on an example\<close>

lemma test_store_ok: "store_ok test_store test_disk"
  by (simp add: store_ok_def test_store_def test_disk_def db_table_def is_file_path_def)

lemma test_table:
  "db_table test_store test_disk =
     Some [(''topic_a'', ''evt_0'', ''2025-10-18T10:00:00Z'', ''2025-10-18T10:00:01+00:00'')]"
  by (simp add: test_store_def test_disk_def db_table_def is_file_path_def)

lemma test_agg_store: "dedup_store (EventAggregator_init t0 s) = s"
  by (simp add: EventAggregator_init_def)

theorem publish_per_event_witness:
  "publish [test_event ''topic_a'' ''evt_0'' ''2025-10-18T10:05:00Z'',
            test_event ''topic_a'' ''evt_1'' ''2025-10-18T10:06:00Z'']
      test_disk (EventAggregator_init 0 test_store)
   = (Inr \<lparr>accepted = 1, rejected = 1, duplicates_immediate = 1\<rparr>,
      (EventAggregator_init 0 test_store)
        \<lparr>queue := [test_event ''topic_a'' ''evt_1'' ''2025-10-18T10:06:00Z''],
         stats := \<lparr>received = 2, unique_processed = 0, duplicate_dropped = 1, start_time = 0\<rparr>\<rparr>)"
proof -
  have ok: "store_ok (dedup_store (EventAggregator_init 0 test_store :: unit aggregator)) test_disk"
    by (simp add: test_agg_store test_store_ok)
  show ?thesis
    using publish_per_event [OF ok, of
        "[test_event ''topic_a'' ''evt_0'' ''2025-10-18T10:05:00Z'',
          test_event ''topic_a'' ''evt_1'' ''2025-10-18T10:06:00Z'']"]
    by (simp add: test_agg_store test_table known_def has_key_def row_topic_def row_event_id_def
        test_event_def EventAggregator_init_def)
qed

theorem publish_result_counts_witness:
  "fst (publish [test_event ''topic_a'' ''evt_0'' ''2025-10-18T10:05:00Z'',
                 test_event ''topic_a'' ''evt_1'' ''2025-10-18T10:06:00Z'']
          test_disk (EventAggregator_init 0 test_store))
     = Inr \<lparr>accepted = 1, rejected = 1, duplicates_immediate = 1\<rparr>
   \<and> received (stats (snd (publish [test_event ''topic_a'' ''evt_0'' ''2025-10-18T10:05:00Z'',
                 test_event ''topic_a'' ''evt_1'' ''2025-10-18T10:06:00Z'']
          test_disk (EventAggregator_init 0 test_store)))) = 0 + 2
   \<and> unique_processed (stats (snd (publish [test_event ''topic_a'' ''evt_0'' ''2025-10-18T10:05:00Z'',
                 test_event ''topic_a'' ''evt_1'' ''2025-10-18T10:06:00Z'']
          test_disk (EventAggregator_init 0 test_store)))) = 0"
proof -
  let ?evs = "[test_event ''topic_a'' ''evt_0'' ''2025-10-18T10:05:00Z'',
               test_event ''topic_a'' ''evt_1'' ''2025-10-18T10:06:00Z'']"
  let ?a = "EventAggregator_init 0 test_store :: unit aggregator"
  have ok: "store_ok (dedup_store ?a) test_disk"
    by (simp add: test_agg_store test_store_ok)
  have r: "fst (publish ?evs test_disk ?a) = Inr \<lparr>accepted = 1, rejected = 1, duplicates_immediate = 1\<rparr>"
    by (simp add: publish_closed [OF ok] test_agg_store test_table known_def has_key_def
        row_topic_def row_event_id_def test_event_def)
  from publish_result_counts [of ?a test_disk ?evs] r
  have "received (stats (snd (publish ?evs test_disk ?a))) = received (stats ?a) + int (length ?evs)"
    and "unique_processed (stats (snd (publish ?evs test_disk ?a))) = unique_processed (stats ?a)"
    by blast+
  then show ?thesis using r by (simp add: EventAggregator_init_def)
qed

section \<open>Queries\<close>

lemma newest_first_order: "newest_first (order_by_processed_at_desc t)"
  using sorted_sort_key [of row_processed_at t]
  by (simp add: newest_first_def order_by_processed_at_desc_def sorted_wrt_rev sorted_map)

lemma mset_order: "mset (order_by_processed_at_desc t) = mset t"
  by (simp add: order_by_processed_at_desc_def)

lemma fetch_ok_filter:
  assumes "store_ok s d" and "tp \<noteq> []"
  shows "sync_fetch_events (Some tp) s d =
           Inr (order_by_processed_at_desc (filter (\<lambda>r. row_topic r = tp) (the (db_table s d))))"
  using assms by (simp add: sync_fetch_events_def select_rows_ok truthy_def)

lemma fetch_ok_all:
  assumes "store_ok s d"
  shows "sync_fetch_events None s d = Inr (order_by_processed_at_desc (the (db_table s d)))"
  using assms by (simp add: sync_fetch_events_def select_rows_ok truthy_def)

lemma fetch_empty_topic: "sync_fetch_events (Some []) s d = sync_fetch_events None s d"
  by (simp add: sync_fetch_events_def truthy_def split: sum.splits)

text \<open>
  C5, amended. On a usable store, for every non-empty topic \<open>tp\<close>, \<^verbatim>\<open>get_events(tp)\<close>
  returns the dicts of exactly the records whose topic is \<open>tp\<close> (each record once),
  in descending order of the stored \<^verbatim>\<open>processed_at\<close> text; without a topic argument it
  returns the dicts of all records in that order.
\<close>

theorem get_events_by_topic:
  assumes "store_ok (dedup_store a) d"
  shows "(tp \<noteq> [] \<longrightarrow>
            (\<exists>rs. get_events (Some tp) a d = Inr (map event_dict rs)
                  \<and> mset rs = mset (filter (\<lambda>r. row_topic r = tp) (the (db_table (dedup_store a) d)))
                  \<and> newest_first rs))
         \<and> (\<exists>rs. get_events None a d = Inr (map event_dict rs)
                  \<and> mset rs = mset (the (db_table (dedup_store a) d))
                  \<and> newest_first rs)"
proof (intro conjI impI)
  let ?t = "the (db_table (dedup_store a) d)"
  assume ne: "tp \<noteq> []"
  let ?rs = "order_by_processed_at_desc (filter (\<lambda>r. row_topic r = tp) ?t)"
  have "get_events (Some tp) a d = Inr (map event_dict ?rs)"
    using fetch_ok_filter [OF assms ne] by (simp add: get_events_def get_processed_events_def)
  moreover have "mset ?rs = mset (filter (\<lambda>r. row_topic r = tp) ?t)" by (rule mset_order)
  moreover have "newest_first ?rs" by (rule newest_first_order)
  ultimately show "\<exists>rs. get_events (Some tp) a d = Inr (map event_dict rs)
      \<and> mset rs = mset (filter (\<lambda>r. row_topic r = tp) ?t) \<and> newest_first rs"
    by blast
next
  let ?t = "the (db_table (dedup_store a) d)"
  let ?rs = "order_by_processed_at_desc ?t"
  have "get_events None a d = Inr (map event_dict ?rs)"
    using fetch_ok_all [OF assms] by (simp add: get_events_def get_processed_events_def)
  moreover have "mset ?rs = mset ?t" by (rule mset_order)
  moreover have "newest_first ?rs" by (rule newest_first_order)
  ultimately show "\<exists>rs. get_events None a d = Inr (map event_dict rs)
      \<and> mset rs = mset ?t \<and> newest_first rs"
    by blast
qed

text \<open>
  The claim as stated fails at the empty string: the store holds one record, of topic
  \<^verbatim>\<open>topic_a\<close>, none of topic \<^verbatim>\<open>""\<close>, and \<^verbatim>\<open>get_events("")\<close> returns that record.
\<close>

theorem get_events_empty_topic_counterexample:
  "get_events (Some '''') (EventAggregator_init 0 test_store :: unit aggregator) test_disk
     = Inr [[(''topic'', ''topic_a''), (''event_id'', ''evt_0''),
             (''timestamp'', ''2025-10-18T10:00:00Z''),
             (''processed_at'', ''2025-10-18T10:00:01+00:00'')]]
   \<and> filter (\<lambda>r. row_topic r = '''') (the (db_table test_store test_disk)) = []"
  by (simp add: get_events_def get_processed_events_def sync_fetch_events_def truthy_def
      test_agg_store select_rows_ok [OF test_store_ok] test_table order_by_processed_at_desc_def
      event_dict_def row_topic_def row_event_id_def row_timestamp_def row_processed_at_def)

theorem get_events_by_topic_witness:
  "store_ok (dedup_store (EventAggregator_init 0 test_store :: unit aggregator)) test_disk
   \<and> (\<exists>rs. get_events (Some ''topic_a'') (EventAggregator_init 0 test_store :: unit aggregator) test_disk
              = Inr (map event_dict rs)
          \<and> mset rs = {#(''topic_a'', ''evt_0'', ''2025-10-18T10:00:00Z'', ''2025-10-18T10:00:01+00:00'')#}
          \<and> newest_first rs)"
proof -
  let ?a = "EventAggregator_init 0 test_store :: unit aggregator"
  have ok: "store_ok (dedup_store ?a) test_disk"
    by (simp add: test_agg_store test_store_ok)
  have ne: "''topic_a'' \<noteq> []" by simp
  from get_events_by_topic [OF ok, of "''topic_a''"] ne
  obtain rs where "get_events (Some ''topic_a'') ?a test_disk = Inr (map event_dict rs)"
    and "mset rs = mset (filter (\<lambda>r. row_topic r = ''topic_a'') (the (db_table (dedup_store ?a) test_disk)))"
    and "newest_first rs"
    by blast
  then show ?thesis
    using ok by (auto simp: test_agg_store test_table row_topic_def)
qed

text \<open>
  C9. The empty string as topic is the absent topic: \<^verbatim>\<open>get_events("")\<close> and
  \<^verbatim>\<open>get_processed_events("")\<close> return what the calls without a topic return (or raise
  the same error), and on a usable store that is every record of the table, of
  whatever topic, each once and newest first; the records are not filtered to those
  whose topic is the empty string.
\<close>

theorem empty_topic_is_no_filter:
  "get_events (Some '''') a d = get_events None a d
   \<and> get_processed_events (Some '''') s d = get_processed_events None s d
   \<and> (store_ok (dedup_store a) d \<longrightarrow>
        (\<exists>rs. get_events (Some '''') a d = Inr (map event_dict rs)
              \<and> mset rs = mset (the (db_table (dedup_store a) d))
              \<and> newest_first rs))
   \<and> (store_ok s d \<longrightarrow>
        (\<exists>rs. get_processed_events (Some '''') s d = Inr rs
              \<and> mset rs = mset (the (db_table s d))
              \<and> newest_first rs))"
proof (intro conjI impI)
  show "get_events (Some '''') a d = get_events None a d"
    by (simp add: get_events_def get_processed_events_def fetch_empty_topic)
  show "get_processed_events (Some '''') s d = get_processed_events None s d"
    by (simp add: get_processed_events_def fetch_empty_topic)
next
  assume ok: "store_ok (dedup_store a) d"
  let ?rs = "order_by_processed_at_desc (the (db_table (dedup_store a) d))"
  have "get_events (Some '''') a d = Inr (map event_dict ?rs)"
    using fetch_ok_all [OF ok]
    by (simp add: get_events_def get_processed_events_def fetch_empty_topic)
  moreover have "mset ?rs = mset (the (db_table (dedup_store a) d))" by (rule mset_order)
  moreover have "newest_first ?rs" by (rule newest_first_order)
  ultimately show "\<exists>rs. get_events (Some '''') a d = Inr (map event_dict rs)
      \<and> mset rs = mset (the (db_table (dedup_store a) d)) \<and> newest_first rs"
    by blast
next
  assume ok: "store_ok s d"
  let ?rs = "order_by_processed_at_desc (the (db_table s d))"
  have "get_processed_events (Some '''') s d = Inr ?rs"
    using fetch_ok_all [OF ok] by (simp add: get_processed_events_def fetch_empty_topic)
  moreover have "mset ?rs = mset (the (db_table s d))" by (rule mset_order)
  moreover have "newest_first ?rs" by (rule newest_first_order)
  ultimately show "\<exists>rs. get_processed_events (Some '''') s d = Inr rs
      \<and> mset rs = mset (the (db_table s d)) \<and> newest_first rs"
    by blast
qed

text \<open>
  On the file with one record of \<^verbatim>\<open>topic_a\<close> and one of \<^verbatim>\<open>topic_b\<close>, none of topic
  \<^verbatim>\<open>""\<close>, both calls with \<^verbatim>\<open>""\<close> return the two records.
\<close>

theorem empty_topic_is_no_filter_witness:
  "store_ok (dedup_store (EventAggregator_init 0 test_store :: unit aggregator)) two_topic_disk
   \<and> store_ok test_store two_topic_disk
   \<and> get_events (Some '''') (EventAggregator_init 0 test_store :: unit aggregator) two_topic_disk
     = Inr [[(''topic'', ''topic_b''), (''event_id'', ''evt_b_0''),
             (''timestamp'', ''2025-10-18T10:00:00Z''),
             (''processed_at'', ''2025-10-18T10:00:02+00:00'')],
            [(''topic'', ''topic_a''), (''event_id'', ''evt_a_0''),
             (''timestamp'', ''2025-10-18T10:00:00Z''),
             (''processed_at'', ''2025-10-18T10:00:01+00:00'')]]
   \<and> get_processed_events (Some '''') test_store two_topic_disk
     = Inr [(''topic_b'', ''evt_b_0'', ''2025-10-18T10:00:00Z'', ''2025-10-18T10:00:02+00:00''),
            (''topic_a'', ''evt_a_0'', ''2025-10-18T10:00:00Z'', ''2025-10-18T10:00:01+00:00'')]
   \<and> filter (\<lambda>r. row_topic r = '''') (the (db_table test_store two_topic_disk)) = []"
proof -
  let ?a = "EventAggregator_init 0 test_store :: unit aggregator"
  have tab: "db_table test_store two_topic_disk =
      Some [(''topic_a'', ''evt_a_0'', ''2025-10-18T10:00:00Z'', ''2025-10-18T10:00:01+00:00''),
            (''topic_b'', ''evt_b_0'', ''2025-10-18T10:00:00Z'', ''2025-10-18T10:00:02+00:00'')]"
    by (simp add: test_store_def two_topic_disk_def db_table_def is_file_path_def)
  have op: "conn_open test_store" by (simp add: test_store_def)
  have ok: "store_ok test_store two_topic_disk"
    by (simp add: store_ok_def tab op)
  have oka: "store_ok (dedup_store ?a) two_topic_disk"
    using ok by (simp add: test_agg_store)
  have all: "get_processed_events None test_store two_topic_disk
      = Inr [(''topic_b'', ''evt_b_0'', ''2025-10-18T10:00:00Z'', ''2025-10-18T10:00:02+00:00''),
             (''topic_a'', ''evt_a_0'', ''2025-10-18T10:00:00Z'', ''2025-10-18T10:00:01+00:00'')]"
    by (simp add: get_processed_events_def fetch_ok_all [OF ok] tab
        order_by_processed_at_desc_def row_processed_at_def)
  have alla: "get_events None ?a two_topic_disk
      = Inr [[(''topic'', ''topic_b''), (''event_id'', ''evt_b_0''),
              (''timestamp'', ''2025-10-18T10:00:00Z''),
              (''processed_at'', ''2025-10-18T10:00:02+00:00'')],
             [(''topic'', ''topic_a''), (''event_id'', ''evt_a_0''),
              (''timestamp'', ''2025-10-18T10:00:00Z''),
              (''processed_at'', ''2025-10-18T10:00:01+00:00'')]]"
    using all
    by (simp add: get_events_def test_agg_store event_dict_def row_topic_def row_event_id_def
        row_timestamp_def row_processed_at_def)
  from empty_topic_is_no_filter [of ?a two_topic_disk test_store]
  have "get_events (Some '''') ?a two_topic_disk = get_events None ?a two_topic_disk"
    and "get_processed_events (Some '''') test_store two_topic_disk
           = get_processed_events None test_store two_topic_disk"
    by blast+
  then show ?thesis
    using ok oka all alla by (simp add: tab row_topic_def)
qed

section \<open>Restart\<close>

lemma reopen_file:
  assumes "is_file_path (db_path s)" and "db_table s d = Some t"
  shows "reopen s d = (\<lparr>db_path = db_path s, conn_open = True, mem = None\<rparr>, d)"
    and "select_rows (fst (reopen s d)) (snd (reopen s d)) = Inr t"
proof -
  have "d (db_path s) = Some t" using assms by (simp add: db_table_def)
  then show r: "reopen s d = (\<lparr>db_path = db_path s, conn_open = True, mem = None\<rparr>, d)"
    using assms(1) by (simp add: reopen_def close_def DeduplicationStore_init_def db_table_def)
  show "select_rows (fst (reopen s d)) (snd (reopen s d)) = Inr t"
    using assms \<open>d (db_path s) = Some t\<close> by (simp add: r select_rows_def db_table_def)
qed

lemma has_key_order: "has_key tp eid (order_by_processed_at_desc t) = has_key tp eid t"
  by (simp add: has_key_def list_ex_iff order_by_processed_at_desc_def)

text \<open>
  The hypothesis on the path is needed: a record written through a connection to
  \<^verbatim>\<open>:memory:\<close> is in no file, and the store constructed next on that name is empty.
\<close>

lemma memory_store_forgets:
  "is_processed ''topic_a'' ''evt_0''
       \<lparr>db_path = '':memory:'', conn_open = True,
        mem = Some [(''topic_a'', ''evt_0'', ''2025-10-18T10:00:00Z'', ''2025-10-18T10:00:01+00:00'')]\<rparr>
       empty_disk = Inr True
   \<and> is_processed ''topic_a'' ''evt_0''
       (fst (reopen \<lparr>db_path = '':memory:'', conn_open = True,
          mem = Some [(''topic_a'', ''evt_0'', ''2025-10-18T10:00:00Z'', ''2025-10-18T10:00:01+00:00'')]\<rparr>
          empty_disk))
       (snd (reopen \<lparr>db_path = '':memory:'', conn_open = True,
          mem = Some [(''topic_a'', ''evt_0'', ''2025-10-18T10:00:00Z'', ''2025-10-18T10:00:01+00:00'')]\<rparr>
          empty_disk)) = Inr False"
  by (simp add: is_processed_def sync_check_def select_rows_def db_table_def is_file_path_def
      has_key_def row_topic_def row_event_id_def reopen_def close_def DeduplicationStore_init_def
      db_write_def empty_disk_def)

lemma mark_Inr_ok:
  assumes "mark_processed tp eid ts now s d = Inr x"
  shows "store_ok s d"
  using assms
  by (auto simp: mark_processed_def sync_mark_def insert_row_def select_rows_def store_ok_def
      split: sum.splits if_splits option.splits error.splits)

lemma mark_result:
  assumes "mark_processed tp eid ts now s d = Inr (b, s1, d1)"
  shows "store_ok s1 d1" and "db_path s1 = db_path s"
    and "has_key tp eid (the (db_table s1 d1))"
    and "b \<Longrightarrow> (tp, eid, ts, now) \<in> set (the (db_table s1 d1))"
    and "set (the (db_table s d)) \<subseteq> set (the (db_table s1 d1))"
proof -
  have ok: "store_ok s d" by (rule mark_Inr_ok [OF assms])
  let ?t = "the (db_table s d)"
  have all: "store_ok s1 d1 \<and> db_path s1 = db_path s \<and> has_key tp eid (the (db_table s1 d1))
      \<and> (b \<longrightarrow> (tp, eid, ts, now) \<in> set (the (db_table s1 d1)))
      \<and> set ?t \<subseteq> set (the (db_table s1 d1))"
  proof (cases "has_key tp eid ?t")
    case True
    then have "b = False" "s1 = s" "d1 = d"
      using assms ok by (simp_all add: mark_processed_def sync_mark_dup)
    then show ?thesis using ok True by simp
  next
    case False
    let ?t' = "?t @ [(tp, eid, ts, now)]"
    have w: "(s1, d1) = db_write ?t' s d" and b: "b = True"
      using assms ok False by (simp_all add: mark_processed_def sync_mark_new)
    have "conn_open s" using ok by (simp add: store_ok_def)
    from store_ok_db_write_pair [OF this w]
    have ok1: "store_ok s1 d1" and tab: "db_table s1 d1 = Some ?t'" by simp_all
    have "db_path s1 = db_path s"
      using db_path_db_write [of ?t' s d] w by (metis fst_conv)
    then show ?thesis
      using ok1 tab by (auto simp: has_key_append row_topic_def row_event_id_def)
  qed
  from all show "store_ok s1 d1" and "db_path s1 = db_path s"
    and "has_key tp eid (the (db_table s1 d1))"
    and "set (the (db_table s d)) \<subseteq> set (the (db_table s1 d1))"
    by simp_all
  from all show "b \<Longrightarrow> (tp, eid, ts, now) \<in> set (the (db_table s1 d1))" by simp
qed

lemma mark_all_keeps:
  assumes "store_ok s d" and "mark_all calls s d = (s', d')"
  shows "store_ok s' d' \<and> db_path s' = db_path s
           \<and> set (the (db_table s d)) \<subseteq> set (the (db_table s' d'))"
  using assms
proof (induction calls arbitrary: s d)
  case Nil
  then show ?case by simp
next
  case (Cons c calls)
  obtain tp eid ts now where c: "c = (tp, eid, ts, now)" by (cases c)
  show ?case
  proof (cases "mark_processed tp eid ts now s d")
    case (Inl e)
    then have "mark_all calls s d = (s', d')" using Cons.prems(2) c by simp
    from Cons.IH [OF Cons.prems(1) this] show ?thesis .
  next
    case (Inr x)
    obtain b s1 d1 where x: "x = (b, s1, d1)" by (cases x)
    have m: "mark_processed tp eid ts now s d = Inr (b, s1, d1)" using Inr x by simp
    then have rest: "mark_all calls s1 d1 = (s', d')" using Cons.prems(2) c by simp
    from Cons.IH [OF mark_result(1) [OF m] rest] mark_result(2,5) [OF m]
    show ?thesis by auto
  qed
qed

lemma has_key_mono:
  assumes "has_key tp eid t" and "set t \<subseteq> set t'"
  shows "has_key tp eid t'"
  using assms by (auto simp: has_key_def list_ex_iff)

text \<open>
  C6. Let a store on a database file record an identity: \<^verbatim>\<open>mark_processed\<close> returns
  (\<open>True\<close> for a new record, \<open>False\<close> for one that existed). Whatever the instance
  records after that, once it is closed the store constructed on the same path reports
  the identity as processed and sees the table the first instance left, so every query
  returns what it returned before the restart; the record of the identity is among all
  records, and it is the very row \<open>(topic, event_id, timestamp, now)\<close> when this call
  created it.
\<close>

theorem durability:
  assumes "is_file_path (db_path s)"
    and "mark_processed tp eid ts now s d = Inr (b, s1, d1)"
    and "mark_all calls s1 d1 = (s2, d2)"
  shows "is_processed tp eid (fst (reopen s2 d2)) (snd (reopen s2 d2)) = Inr True
         \<and> db_table (fst (reopen s2 d2)) (snd (reopen s2 d2)) = db_table s2 d2
         \<and> get_processed_events tpc (fst (reopen s2 d2)) (snd (reopen s2 d2))
             = get_processed_events tpc s2 d2
         \<and> (\<exists>rs. get_processed_events None (fst (reopen s2 d2)) (snd (reopen s2 d2)) = Inr rs
                  \<and> has_key tp eid rs
                  \<and> (b \<longrightarrow> (tp, eid, ts, now) \<in> set rs))"
proof -
  note m = mark_result [OF assms(2)]
  from mark_all_keeps [OF m(1) assms(3)]
  have ok2: "store_ok s2 d2" and path2: "db_path s2 = db_path s1"
    and sub: "set (the (db_table s1 d1)) \<subseteq> set (the (db_table s2 d2))"
    by simp_all
  obtain t where tab: "db_table s2 d2 = Some t" using ok2 by (auto simp: store_ok_def)
  have sel: "select_rows s2 d2 = Inr t" using select_rows_ok [OF ok2] tab by simp
  have key: "has_key tp eid t" using has_key_mono [OF m(3) sub] tab by simp
  have row: "b \<longrightarrow> (tp, eid, ts, now) \<in> set t" using m(4) sub tab by auto
  have fp: "is_file_path (db_path s2)" using assms(1) path2 m(2) by simp
  note re = reopen_file [OF fp tab]
  have sel': "select_rows (fst (reopen s2 d2)) (snd (reopen s2 d2)) = Inr t" by (rule re(2))
  have 1: "is_processed tp eid (fst (reopen s2 d2)) (snd (reopen s2 d2)) = Inr True"
    using sel' key by (simp add: is_processed_def sync_check_def)
  have 2: "db_table (fst (reopen s2 d2)) (snd (reopen s2 d2)) = db_table s2 d2"
    using select_rows_Inr [OF sel'] tab by simp
  have 3: "get_processed_events tpc (fst (reopen s2 d2)) (snd (reopen s2 d2))
             = get_processed_events tpc s2 d2"
    using sel sel' by (simp add: get_processed_events_def sync_fetch_events_def)
  have "get_processed_events None (fst (reopen s2 d2)) (snd (reopen s2 d2))
          = Inr (order_by_processed_at_desc t)"
    using sel' by (simp add: get_processed_events_def sync_fetch_events_def truthy_def)
  moreover have "has_key tp eid (order_by_processed_at_desc t)"
    using key by (simp add: has_key_order)
  moreover have "b \<longrightarrow> (tp, eid, ts, now) \<in> set (order_by_processed_at_desc t)"
    using row by (simp add: order_by_processed_at_desc_def)
  ultimately have 4: "\<exists>rs. get_processed_events None (fst (reopen s2 d2)) (snd (reopen s2 d2)) = Inr rs
                  \<and> has_key tp eid rs \<and> (b \<longrightarrow> (tp, eid, ts, now) \<in> set rs)"
    by blast
  from 1 2 3 4 show ?thesis by blast
qed

text \<open>
  The persistence test: a new store on an empty file records \<^verbatim>\<open>persist/evt_persist_001\<close>,
  then one more event; the store constructed on the file after the restart knows the
  first identity and returns both rows, newest first.
\<close>

theorem durability_witness:
  "is_file_path (db_path test_store)
   \<and> mark_processed ''persist'' ''evt_persist_001'' ''2025-10-18T10:00:00Z'' ''2025-10-18T10:00:02+00:00''
        test_store (empty_disk(''test.db'' := Some []))
       = Inr (True, test_store,
           empty_disk(''test.db'' := Some
             [(''persist'', ''evt_persist_001'', ''2025-10-18T10:00:00Z'', ''2025-10-18T10:00:02+00:00'')]))
   \<and> mark_all [(''persist'', ''evt_persist_002'', ''2025-10-18T10:00:05Z'', ''2025-10-18T10:00:07+00:00'')]
        test_store
        (empty_disk(''test.db'' := Some
             [(''persist'', ''evt_persist_001'', ''2025-10-18T10:00:00Z'', ''2025-10-18T10:00:02+00:00'')]))
       = (test_store,
          empty_disk(''test.db'' := Some
             [(''persist'', ''evt_persist_001'', ''2025-10-18T10:00:00Z'', ''2025-10-18T10:00:02+00:00''),
              (''persist'', ''evt_persist_002'', ''2025-10-18T10:00:05Z'', ''2025-10-18T10:00:07+00:00'')]))
   \<and> is_processed ''persist'' ''evt_persist_001''
        (fst (reopen test_store (empty_disk(''test.db'' := Some
             [(''persist'', ''evt_persist_001'', ''2025-10-18T10:00:00Z'', ''2025-10-18T10:00:02+00:00''),
              (''persist'', ''evt_persist_002'', ''2025-10-18T10:00:05Z'', ''2025-10-18T10:00:07+00:00'')]))))
        (snd (reopen test_store (empty_disk(''test.db'' := Some
             [(''persist'', ''evt_persist_001'', ''2025-10-18T10:00:00Z'', ''2025-10-18T10:00:02+00:00''),
              (''persist'', ''evt_persist_002'', ''2025-10-18T10:00:05Z'', ''2025-10-18T10:00:07+00:00'')]))))
       = Inr True
   \<and> get_processed_events None
        (fst (reopen test_store (empty_disk(''test.db'' := Some
             [(''persist'', ''evt_persist_001'', ''2025-10-18T10:00:00Z'', ''2025-10-18T10:00:02+00:00''),
              (''persist'', ''evt_persist_002'', ''2025-10-18T10:00:05Z'', ''2025-10-18T10:00:07+00:00'')]))))
        (snd (reopen test_store (empty_disk(''test.db'' := Some
             [(''persist'', ''evt_persist_001'', ''2025-10-18T10:00:00Z'', ''2025-10-18T10:00:02+00:00''),
              (''persist'', ''evt_persist_002'', ''2025-10-18T10:00:05Z'', ''2025-10-18T10:00:07+00:00'')]))))
       = Inr [(''persist'', ''evt_persist_002'', ''2025-10-18T10:00:05Z'', ''2025-10-18T10:00:07+00:00''),
              (''persist'', ''evt_persist_001'', ''2025-10-18T10:00:00Z'', ''2025-10-18T10:00:02+00:00'')]"
proof -
  let ?r1 = "(''persist'', ''evt_persist_001'', ''2025-10-18T10:00:00Z'', ''2025-10-18T10:00:02+00:00'')"
  let ?r2 = "(''persist'', ''evt_persist_002'', ''2025-10-18T10:00:05Z'', ''2025-10-18T10:00:07+00:00'')"
  let ?d0 = "empty_disk(''test.db'' := Some [])"
  let ?d1 = "empty_disk(''test.db'' := Some [?r1])"
  let ?d2 = "empty_disk(''test.db'' := Some [?r1, ?r2])"
  have p: "is_file_path (db_path test_store)"
    by (simp add: test_store_def is_file_path_def)
  have tab: "\<And>t. db_table test_store (empty_disk(''test.db'' := Some t)) = Some t"
    by (simp add: test_store_def db_table_def is_file_path_def)
  have wr: "\<And>t t'. db_write t' test_store (empty_disk(''test.db'' := Some t))
                 = (test_store, empty_disk(''test.db'' := Some t'))"
    by (simp add: test_store_def db_write_def is_file_path_def)
  have op: "conn_open test_store" by (simp add: test_store_def)
  have m1: "mark_processed ''persist'' ''evt_persist_001'' ''2025-10-18T10:00:00Z''
              ''2025-10-18T10:00:02+00:00'' test_store ?d0 = Inr (True, test_store, ?d1)"
    by (simp add: mark_processed_def sync_mark_def insert_row_def select_rows_def op tab wr
        has_key_def)
  have m2: "mark_all [?r2] test_store ?d1 = (test_store, ?d2)"
    by (simp add: mark_processed_def sync_mark_def insert_row_def select_rows_def op tab wr
        has_key_def row_topic_def row_event_id_def)
  have re: "reopen test_store ?d2 = (test_store, ?d2)"
    using reopen_file(1) [OF p tab [of "[?r1, ?r2]"]] by (simp add: test_store_def)
  from durability [OF p m1 m2, of None]
  have "is_processed ''persist'' ''evt_persist_001'' (fst (reopen test_store ?d2))
          (snd (reopen test_store ?d2)) = Inr True
        \<and> get_processed_events None (fst (reopen test_store ?d2)) (snd (reopen test_store ?d2))
            = get_processed_events None test_store ?d2"
    by blast
  moreover have "get_processed_events None test_store ?d2 = Inr [?r2, ?r1]"
    by (simp add: get_processed_events_def sync_fetch_events_def select_rows_def op tab truthy_def
        order_by_processed_at_desc_def row_processed_at_def)
  ultimately show ?thesis using p m1 m2 by simp
qed

section \<open>Uptime\<close>

lemma publish_loop_start_time:
  "start_time (stats (snd (publish_loop evs d res a))) = start_time (stats a)"
  by (induction evs arbitrary: res a) (auto simp: Let_def split: sum.splits)

lemma consume_start_time:
  "start_time (stats (fst (consume_events_step now a d))) = start_time (stats a)"
  by (auto simp: consume_events_step_def process_event_def
      split: list.splits sum.splits prod.splits)

lemma step_start_time:
  "start_time (stats (fst (step act w))) = start_time (stats (fst w))"
proof (cases w)
  case (Pair a d)
  then show ?thesis
    by (cases act)
      (simp_all add: start_def stop_def Let_def publish_def publish_loop_start_time
        consume_start_time)
qed

lemma run_start_time:
  "start_time (stats (fst (run acts w))) = start_time (stats (fst w))"
  by (induction acts arbitrary: w) (simp_all add: step_start_time)

text \<open>
  C7, amended. \<^verbatim>\<open>uptime\<close> is the time elapsed since the aggregator was constructed:
  \<^verbatim>\<open>start_time\<close> is read in \<^verbatim>\<open>__init__\<close> and no call changes it, so after any schedule
  of \<^verbatim>\<open>start\<close>, \<^verbatim>\<open>stop\<close>, \<^verbatim>\<open>publish\<close> and worker turns, a \<^verbatim>\<open>get_stats\<close> call at time
  \<open>now\<close> that returns has \<^verbatim>\<open>uptime = now - t0\<close>, \<open>t0\<close> the time of construction; and
  it returns on every usable store.
\<close>

theorem uptime_since_construction:
  "(\<forall>r. get_stats now (fst (run acts (EventAggregator_init t0 s, d)))
            (snd (run acts (EventAggregator_init t0 s, d))) = Inr r
        \<longrightarrow> uptime r = now - t0)
   \<and> (store_ok (dedup_store (fst (run acts (EventAggregator_init t0 s, d))))
          (snd (run acts (EventAggregator_init t0 s, d)))
        \<longrightarrow> (\<exists>r. get_stats now (fst (run acts (EventAggregator_init t0 s, d)))
                   (snd (run acts (EventAggregator_init t0 s, d))) = Inr r))"
proof (intro conjI allI impI)
  let ?w = "run acts (EventAggregator_init t0 s, d)"
  have st: "start_time (stats (fst ?w)) = t0"
    by (simp add: run_start_time EventAggregator_init_def)
  fix r assume "get_stats now (fst ?w) (snd ?w) = Inr r"
  then show "uptime r = now - t0"
    using st by (auto simp: get_stats_def split: sum.splits)
next
  let ?w = "run acts (EventAggregator_init t0 s, d)"
  assume "store_ok (dedup_store (fst ?w)) (snd ?w)"
  then show "\<exists>r. get_stats now (fst ?w) (snd ?w) = Inr r"
    by (simp add: get_stats_def sync_get_stats_def select_rows_ok)
qed

text \<open>
  The claim as stated fails: the aggregator is constructed at time 0, \<^verbatim>\<open>start()\<close> is
  invoked at time 5 and \<^verbatim>\<open>get_stats()\<close> at time 10. The uptime returned is 10, not the
  5 seconds elapsed since the pool was started.
\<close>

theorem uptime_since_start_counterexample:
  "pool_started_at [(5, Start :: unit action)] = Some 5
   \<and> map_sum id uptime
        (get_stats 10 (fst (run (map snd [(5 :: real, Start :: unit action)])
                              (EventAggregator_init 0 test_store, test_disk)))
           (snd (run (map snd [(5 :: real, Start :: unit action)])
                              (EventAggregator_init 0 test_store, test_disk)))) = Inr 10
   \<and> map_sum id uptime
        (get_stats 10 (fst (run (map snd [(5 :: real, Start :: unit action)])
                              (EventAggregator_init 0 test_store, test_disk)))
           (snd (run (map snd [(5 :: real, Start :: unit action)])
                              (EventAggregator_init 0 test_store, test_disk)))) \<noteq> Inr (10 - 5)"
  by (simp add: get_stats_def sync_get_stats_def start_def test_agg_store
      select_rows_ok [OF test_store_ok] EventAggregator_init_def)

theorem uptime_since_construction_witness:
  "store_ok (dedup_store (fst (run test_schedule new_service))) (snd (run test_schedule new_service))
   \<and> map_sum id uptime
        (get_stats 12 (fst (run test_schedule new_service)) (snd (run test_schedule new_service)))
       = Inr (12 - 0)"
proof -
  let ?s = "\<lparr>db_path = ''test.db'', conn_open = True, mem = None\<rparr>"
  let ?d = "empty_disk(''test.db'' := Some [])"
  have w: "new_service = (EventAggregator_init 0 ?s, ?d)" by (rule new_service_eq)
  have ok0: "store_ok (dedup_store (EventAggregator_init 0 ?s :: unit aggregator)) ?d"
    by (simp add: test_agg_store store_ok_def test_store_table)
  have cons: "conserved (EventAggregator_init 0 ?s :: unit aggregator)"
    by (simp add: conserved_def EventAggregator_init_def)
  have ns: "Stop \<notin> set test_schedule" by (simp add: test_schedule_def)
  from run_conserved [OF ok0 cons ns]
  have ok: "store_ok (dedup_store (fst (run test_schedule new_service)))
              (snd (run test_schedule new_service))"
    by (simp add: w)
  from uptime_since_construction [of 12 test_schedule 0 ?s ?d] ok
  obtain r where "get_stats 12 (fst (run test_schedule new_service))
                    (snd (run test_schedule new_service)) = Inr r"
    and "uptime r = 12 - 0"
    unfolding w by blast
  then show ?thesis using ok by simp
qed

section \<open>Shutdown\<close>

lemma close_idem: "close (close s) = close s"
  by (simp add: close_def)

text \<open>
  C8. A second \<^verbatim>\<open>stop()\<close> changes nothing: \<^verbatim>\<open>stop\<close> after \<^verbatim>\<open>stop\<close> leaves the aggregator,
  its store and the database as the first \<^verbatim>\<open>stop\<close> left them, and \<^verbatim>\<open>close\<close> on a closed
  store leaves it closed. Neither call has an error branch: the cancelled tasks stay
  finished and the closed connection accepts \<^verbatim>\<open>close()\<close>.
\<close>

theorem stop_idempotent:
  "stop (stop a) = stop a
   \<and> close (close s) = close s
   \<and> run [Stop, Stop] (a, d) = run [Stop] (a, d)"
proof -
  have "stop (stop a) = stop a"
    by (cases "consumer_tasks a = []") (simp_all add: stop_def Let_def close_idem)
  then show ?thesis by (simp add: close_idem)
qed

theorem stop_idempotent_witness:
  "stop (stop (start (EventAggregator_init 0 test_store :: unit aggregator)))
     = stop (start (EventAggregator_init 0 test_store))
   \<and> conn_open (dedup_store (stop (start (EventAggregator_init 0 test_store :: unit aggregator))))
     = False"
proof -
  have "conn_open (dedup_store (stop (start (EventAggregator_init 0 test_store :: unit aggregator))))
          = False"
    by (simp add: stop_def start_def Let_def close_def EventAggregator_init_def)
  then show ?thesis
    using stop_idempotent [of "start (EventAggregator_init 0 test_store :: unit aggregator)"
        test_store test_disk]
    by simp
qed

end
